theory Spec2Isabelle
  imports Main "HOL-Library.Word"
begin

text \<open>
  The repository is one Python module: values (\<^verbatim>\<open>String\<close>, \<^verbatim>\<open>Array\<close>) with a SHA-256
  digest, nodes that chain the digests of their values in a running hash object, and a
  tree (a linear chain of nodes) with \<^verbatim>\<open>append\<close>, \<^verbatim>\<open>from_iter\<close> and \<^verbatim>\<open>verify\<close>.
  The theory models the library functions the module calls (SHA-256, the hash objects of
  \<^verbatim>\<open>hashlib\<close>, \<^verbatim>\<open>str.encode\<close>), then the module itself over a heap of mutable
  objects, and proves the properties claimed of it.
\<close>

section \<open>Bytes and SHA-256\<close>

text \<open>
  The repository hashes with \<^verbatim>\<open>hashlib.sha256\<close>, which is SHA-256 of FIPS 180-4.
  A byte is an 8-bit word. Inside the compression function a 32-bit word is the list of
  its 32 bits, least significant bit first: the bitwise operations are then plain list
  recursions, addition modulo \<open>2^32\<close> is a ripple-carry adder that drops the last carry,
  and the simplifier can run the function on concrete messages.
\<close>

type_synonym byte = "8 word"
type_synonym bytes = "byte list"
type_synonym u32 = "bool list"

fun bits_of_nat :: "nat \<Rightarrow> nat \<Rightarrow> bool list" where
  "bits_of_nat 0 n = []"
| "bits_of_nat (Suc k) n = odd n # bits_of_nat k (n div 2)"

definition nat_of_bits :: "bool list \<Rightarrow> nat" where
  "nat_of_bits bs = foldr (\<lambda>b n. of_bool b + 2 * n) bs 0"

definition u32_of_nat :: "nat \<Rightarrow> u32" where
  "u32_of_nat n = bits_of_nat 32 n"

fun xor32 :: "u32 \<Rightarrow> u32 \<Rightarrow> u32" where
  "xor32 (x # xs) (y # ys) = (x \<noteq> y) # xor32 xs ys"
| "xor32 _ _ = []"

fun and32 :: "u32 \<Rightarrow> u32 \<Rightarrow> u32" where
  "and32 (x # xs) (y # ys) = (x \<and> y) # and32 xs ys"
| "and32 _ _ = []"

definition not32 :: "u32 \<Rightarrow> u32" where
  "not32 x = map Not x"

fun adc :: "bool \<Rightarrow> u32 \<Rightarrow> u32 \<Rightarrow> u32" where
  "adc c (x # xs) (y # ys) =
     ((x \<noteq> y) \<noteq> c) # adc ((x \<and> y) \<or> (c \<and> (x \<noteq> y))) xs ys"
| "adc c _ _ = []"

definition add32 :: "u32 \<Rightarrow> u32 \<Rightarrow> u32" where
  "add32 x y = adc False x y"

definition rotr :: "nat \<Rightarrow> u32 \<Rightarrow> u32" where
  "rotr n x = drop n x @ take n x"

definition shr :: "nat \<Rightarrow> u32 \<Rightarrow> u32" where
  "shr n x = drop n x @ replicate n False"

definition Ch :: "u32 \<Rightarrow> u32 \<Rightarrow> u32 \<Rightarrow> u32" where
  "Ch x y z = xor32 (and32 x y) (and32 (not32 x) z)"

definition Maj :: "u32 \<Rightarrow> u32 \<Rightarrow> u32 \<Rightarrow> u32" where
  "Maj x y z = xor32 (xor32 (and32 x y) (and32 x z)) (and32 y z)"

definition bsig0 :: "u32 \<Rightarrow> u32" where
  "bsig0 x = xor32 (xor32 (rotr 2 x) (rotr 13 x)) (rotr 22 x)"

definition bsig1 :: "u32 \<Rightarrow> u32" where
  "bsig1 x = xor32 (xor32 (rotr 6 x) (rotr 11 x)) (rotr 25 x)"

definition ssig0 :: "u32 \<Rightarrow> u32" where
  "ssig0 x = xor32 (xor32 (rotr 7 x) (rotr 18 x)) (shr 3 x)"

definition ssig1 :: "u32 \<Rightarrow> u32" where
  "ssig1 x = xor32 (xor32 (rotr 17 x) (rotr 19 x)) (shr 10 x)"

definition K :: "nat list" where
  "K =
     [0x428a2f98, 0x71374491, 0xb5c0fbcf, 0xe9b5dba5] @
     [0x3956c25b, 0x59f111f1, 0x923f82a4, 0xab1c5ed5] @
     [0xd807aa98, 0x12835b01, 0x243185be, 0x550c7dc3] @
     [0x72be5d74, 0x80deb1fe, 0x9bdc06a7, 0xc19bf174] @
     [0xe49b69c1, 0xefbe4786, 0x0fc19dc6, 0x240ca1cc] @
     [0x2de92c6f, 0x4a7484aa, 0x5cb0a9dc, 0x76f988da] @
     [0x983e5152, 0xa831c66d, 0xb00327c8, 0xbf597fc7] @
     [0xc6e00bf3, 0xd5a79147, 0x06ca6351, 0x14292967] @
     [0x27b70a85, 0x2e1b2138, 0x4d2c6dfc, 0x53380d13] @
     [0x650a7354, 0x766a0abb, 0x81c2c92e, 0x92722c85] @
     [0xa2bfe8a1, 0xa81a664b, 0xc24b8b70, 0xc76c51a3] @
     [0xd192e819, 0xd6990624, 0xf40e3585, 0x106aa070] @
     [0x19a4c116, 0x1e376c08, 0x2748774c, 0x34b0bcb5] @
     [0x391c0cb3, 0x4ed8aa4a, 0x5b9cca4f, 0x682e6ff3] @
     [0x748f82ee, 0x78a5636f, 0x84c87814, 0x8cc70208] @
     [0x90befffa, 0xa4506ceb, 0xbef9a3f7, 0xc67178f2]"

definition H0 :: "nat list" where
  "H0 =
     [0x6a09e667, 0xbb67ae85, 0x3c6ef372, 0xa54ff53a,
      0x510e527f, 0x9b05688c, 0x1f83d9ab, 0x5be0cd19]"

text \<open>
  The message schedule, on a window of the sixteen latest words (oldest first):
  \<^verbatim>\<open>W[t] = ssig1(W[t-2]) + W[t-7] + ssig0(W[t-15]) + W[t-16]\<close>.
\<close>

fun next_w :: "u32 list \<Rightarrow> u32" where
  "next_w [w0, w1, w2, w3, w4, w5, w6, w7, w8, w9, w10, w11, w12, w13, w14, w15] =
     add32 (add32 (add32 (ssig1 w14) w9) (ssig0 w1)) w0"
| "next_w _ = []"

fun schedule :: "nat \<Rightarrow> u32 list \<Rightarrow> u32 list" where
  "schedule 0 ws = ws"
| "schedule (Suc n) ws = hd ws # schedule n (tl ws @ [next_w ws])"

fun T1 :: "u32 \<Rightarrow> u32 \<Rightarrow> u32 list \<Rightarrow> u32" where
  "T1 k w [a, b, c, d, e, f, g, h] = add32 (add32 (add32 (add32 h (bsig1 e)) (Ch e f g)) k) w"
| "T1 _ _ _ = []"

fun T2 :: "u32 list \<Rightarrow> u32" where
  "T2 [a, b, c, d, e, f, g, h] = add32 (bsig0 a) (Maj a b c)"
| "T2 _ = []"

fun rotate :: "u32 \<Rightarrow> u32 \<Rightarrow> u32 list \<Rightarrow> u32 list" where
  "rotate t1 t2 [a, b, c, d, e, f, g, h] = [add32 t1 t2, a, b, c, add32 d t1, e, f, g]"
| "rotate _ _ s = s"

definition sha_round :: "u32 \<times> u32 \<Rightarrow> u32 list \<Rightarrow> u32 list" where
  "sha_round kw s = rotate (T1 (fst kw) (snd kw) s) (T2 s) s"

definition compress :: "u32 list \<Rightarrow> u32 list \<Rightarrow> u32 list" where
  "compress hs block =
     map2 add32 hs (fold sha_round (zip (map u32_of_nat K) (schedule 48 block)) hs)"

definition u32_of_bytes :: "byte \<Rightarrow> byte \<Rightarrow> byte \<Rightarrow> byte \<Rightarrow> u32" where
  "u32_of_bytes a b c d =
     bits_of_nat 8 (unat d) @ bits_of_nat 8 (unat c) @ bits_of_nat 8 (unat b) @ bits_of_nat 8 (unat a)"

fun be32 :: "bytes \<Rightarrow> u32 list" where
  "be32 (a # b # c # d # r) = u32_of_bytes a b c d # be32 r"
| "be32 _ = []"

definition be_bytes :: "u32 \<Rightarrow> bytes" where
  "be_bytes w = map (\<lambda>i. of_nat (nat_of_bits (take 8 (drop i w)))) [24, 16, 8, 0]"

definition be64 :: "nat \<Rightarrow> bytes" where
  "be64 n = map (\<lambda>i. of_nat (n div 2 ^ (8 * i))) [7, 6, 5, 4, 3, 2, 1, 0]"

definition pad :: "bytes \<Rightarrow> bytes" where
  "pad m = m @ [0x80] @ replicate ((119 - length m mod 64) mod 64) 0 @ be64 (8 * length m)"

function blocks :: "u32 list \<Rightarrow> u32 list \<Rightarrow> u32 list" where
  "blocks hs ws = (if ws = [] then hs else blocks (compress hs (take 16 ws)) (drop 16 ws))"
  by pat_completeness auto
termination
  by (relation "measure (\<lambda>(hs, ws). length ws)") auto

declare blocks.simps [simp del]

definition sha256 :: "bytes \<Rightarrow> bytes" where
  "sha256 m = concat (map be_bytes (blocks (map u32_of_nat H0) (be32 (pad m))))"

definition hexdigit :: "nat \<Rightarrow> char" where
  "hexdigit n = ''0123456789abcdef'' ! n"

definition hex :: "bytes \<Rightarrow> string" where
  "hex bs = concat (map (\<lambda>b. [hexdigit (unat b div 16), hexdigit (unat b mod 16)]) bs)"

text \<open>Bytes written as a string of hexadecimal digits, two for each byte.\<close>

fun hexval :: "char \<Rightarrow> nat" where
  "hexval c = (if of_char c < (58 :: nat) then of_char c - 48 else of_char c - 87)"

fun fromhex :: "string \<Rightarrow> bytes" where
  "fromhex (a # b # cs) = of_nat (16 * hexval a + hexval b) # fromhex cs"
| "fromhex _ = []"

section \<open>hashlib hash objects\<close>

text \<open>
  A hash object is determined by the bytes passed to it so far: by the library's
  contract, \<^verbatim>\<open>update(a); update(b)\<close> is \<^verbatim>\<open>update(a + b)\<close>, \<^verbatim>\<open>digest()\<close> is the
  digest of all the data passed so far and leaves the object usable, and \<^verbatim>\<open>copy()\<close>
  is a new object in the same state. The functions below are the operations on a hash
  object held in a local variable; the hash objects that nodes keep live in the heap
  (see the section on the heap).
\<close>

datatype Hash = Hash (fed: bytes)

definition sha256_new :: "bytes \<Rightarrow> Hash" where
  "sha256_new data = Hash data"

definition Hash_copy :: "Hash \<Rightarrow> Hash" where
  "Hash_copy x = x"

definition Hash_update :: "Hash \<Rightarrow> bytes \<Rightarrow> Hash" where
  "Hash_update x data = Hash (fed x @ data)"

definition Hash_digest :: "Hash \<Rightarrow> bytes" where
  "Hash_digest x = sha256 (fed x)"

definition Hash_hexdigest :: "Hash \<Rightarrow> string" where
  "Hash_hexdigest x = hex (Hash_digest x)"

text \<open>\<^verbatim>\<open>INIT_HASHER = hashlib.sha256(b"")\<close>: only ever copied, never updated.\<close>

definition INIT_HASHER :: Hash where
  "INIT_HASHER = sha256_new []"

section \<open>Values\<close>

text \<open>
  A Python \<^verbatim>\<open>str\<close> is a sequence of code points. \<^verbatim>\<open>str.encode()\<close> is UTF-8 with
  strict error handling: a surrogate code point (U+D800 to U+DFFF) raises
  \<^verbatim>\<open>UnicodeEncodeError\<close>.
\<close>

type_synonym pystr = "nat list"

definition str :: "string \<Rightarrow> pystr" where
  "str s = map of_char s"

datatype error = UnicodeEncodeError | AssertionError | IndexError | TypeError

definition surrogate :: "nat \<Rightarrow> bool" where
  "surrogate c = (0xD800 \<le> c \<and> c \<le> 0xDFFF)"

definition utf8 :: "nat \<Rightarrow> bytes" where
  "utf8 c =
     (if c < 0x80 then [of_nat c]
      else if c < 0x800 then [of_nat (0xC0 + c div 64), of_nat (0x80 + c mod 64)]
      else if c < 0x10000 then
        [of_nat (0xE0 + c div 4096), of_nat (0x80 + c div 64 mod 64), of_nat (0x80 + c mod 64)]
      else
        [of_nat (0xF0 + c div 262144), of_nat (0x80 + c div 4096 mod 64),
         of_nat (0x80 + c div 64 mod 64), of_nat (0x80 + c mod 64)])"

fun encode :: "pystr \<Rightarrow> error + bytes" where
  "encode [] = Inr []"
| "encode (c # cs) =
     (if surrogate c then Inl UnicodeEncodeError
      else (case encode cs of Inl e \<Rightarrow> Inl e | Inr bs \<Rightarrow> Inr (utf8 c @ bs)))"

text \<open>
  The same bytes as numbers, the code point that a sequence of such numbers stands for,
  and the length of a sequence as its first byte tells it.
\<close>

definition utf8n :: "nat \<Rightarrow> nat list" where
  "utf8n c =
     (if c < 0x80 then [c]
      else if c < 0x800 then [0xC0 + c div 64, 0x80 + c mod 64]
      else if c < 0x10000 then [0xE0 + c div 4096, 0x80 + c div 64 mod 64, 0x80 + c mod 64]
      else [0xF0 + c div 262144, 0x80 + c div 4096 mod 64, 0x80 + c div 64 mod 64,
            0x80 + c mod 64])"

fun utf8n_decode :: "nat list \<Rightarrow> nat" where
  "utf8n_decode [a] = a"
| "utf8n_decode [a, b] = (a - 0xC0) * 64 + (b - 0x80)"
| "utf8n_decode [a, b, c] = (a - 0xE0) * 4096 + (b - 0x80) * 64 + (c - 0x80)"
| "utf8n_decode [a, b, c, d] =
     (a - 0xF0) * 262144 + (b - 0x80) * 4096 + (c - 0x80) * 64 + (d - 0x80)"
| "utf8n_decode _ = 0"

definition utf8_length :: "nat \<Rightarrow> nat" where
  "utf8_length lead =
     (if lead < 0x80 then 1 else if lead < 0xE0 then 2 else if lead < 0xF0 then 3 else 4)"

text \<open>
  \<^verbatim>\<open>String\<close> wraps a \<^verbatim>\<open>str\<close>; \<^verbatim>\<open>Array\<close> holds a list of \<^verbatim>\<open>String\<close> objects
  (\<^verbatim>\<open>items: Iterable[String]\<close>), each kept here as the \<^verbatim>\<open>str\<close> it wraps.
\<close>

datatype Value = String pystr | Array "pystr list"

definition String_digest :: "pystr \<Rightarrow> error + bytes" where
  "String_digest s =
     (case encode s of Inl e \<Rightarrow> Inl e | Inr b \<Rightarrow> Inr (Hash_digest (sha256_new b)))"

fun Array_digest_loop :: "Hash \<Rightarrow> pystr list \<Rightarrow> error + Hash" where
  "Array_digest_loop hasher [] = Inr hasher"
| "Array_digest_loop hasher (v # vs) =
     (case String_digest v of
        Inl e \<Rightarrow> Inl e
      | Inr d \<Rightarrow> Array_digest_loop (Hash_update hasher d) vs)"

definition Array_digest :: "pystr list \<Rightarrow> error + bytes" where
  "Array_digest items =
     (case Array_digest_loop (Hash_copy INIT_HASHER) items of
        Inl e \<Rightarrow> Inl e
      | Inr hasher \<Rightarrow> Inr (Hash_digest hasher))"

fun Value_digest :: "Value \<Rightarrow> error + bytes" where
  "Value_digest (String s) = String_digest s"
| "Value_digest (Array items) = Array_digest items"

section \<open>The heap, nodes and the tree\<close>

text \<open>
  A node keeps references to two mutable objects: its own hash object and the
  \<^verbatim>\<open>Value\<close> it was given. Both live in a heap, addressed by their index, so that
  copying a hash object (a new address) differs from sharing it, and a \<^verbatim>\<open>Value\<close>
  changed in place is seen by every node that holds it. A \<^verbatim>\<open>Node\<close> itself is never
  assigned to after \<^verbatim>\<open>__init__\<close> and is kept by value, with its parent inside.
\<close>

type_synonym ref = nat

record heap =
  hashers :: "Hash list"
  vals :: "Value list"

datatype Node = Node (node_hasher: ref) (node_value: ref) (node_parent: "Node option")

definition new_hash :: "Hash \<Rightarrow> heap \<Rightarrow> ref \<times> heap" where
  "new_hash x h = (length (hashers h), h\<lparr>hashers := hashers h @ [x]\<rparr>)"

definition heap_update :: "ref \<Rightarrow> bytes \<Rightarrow> heap \<Rightarrow> heap" where
  "heap_update r data h = h\<lparr>hashers := (hashers h)[r := Hash_update (hashers h ! r) data]\<rparr>"

definition Node_init :: "ref \<Rightarrow> Node option \<Rightarrow> heap \<Rightarrow> error + Node \<times> heap" where
  "Node_init v parent h =
     (case (case parent of
              None \<Rightarrow> new_hash (Hash_copy INIT_HASHER) h
            | Some p \<Rightarrow> new_hash (Hash_copy (hashers h ! node_hasher p)) h) of
        (r, h1) \<Rightarrow>
          (case Value_digest (vals h1 ! v) of
             Inl e \<Rightarrow> Inl e
           | Inr d \<Rightarrow> Inr (Node r v parent, heap_update r d h1)))"

definition Node_hash :: "heap \<Rightarrow> Node \<Rightarrow> string" where
  "Node_hash h n = Hash_hexdigest (hashers h ! node_hasher n)"

definition Node_value :: "heap \<Rightarrow> Node \<Rightarrow> Value" where
  "Node_value h n = vals h ! node_value n"

record Tree =
  root :: "Node option"

definition Tree_new :: Tree where
  "Tree_new = \<lparr>root = None\<rparr>"

definition Tree_append :: "ref \<Rightarrow> Tree \<Rightarrow> heap \<Rightarrow> error + Tree \<times> heap" where
  "Tree_append v t h =
     (case Node_init v (root t) h of
        Inl e \<Rightarrow> Inl e
      | Inr (n, h') \<Rightarrow> Inr (t\<lparr>root := Some n\<rparr>, h'))"

fun from_iter_loop :: "ref list \<Rightarrow> Tree \<Rightarrow> heap \<Rightarrow> error + Tree \<times> heap" where
  "from_iter_loop [] t h = Inr (t, h)"
| "from_iter_loop (v # vs) t h =
     (case Tree_append v t h of
        Inl e \<Rightarrow> Inl e
      | Inr (t', h') \<Rightarrow> from_iter_loop vs t' h')"

definition Tree_from_iter :: "ref list \<Rightarrow> heap \<Rightarrow> error + Tree \<times> heap" where
  "Tree_from_iter vs h = from_iter_loop vs Tree_new h"

text \<open>
  \<^verbatim>\<open>verify\<close>: the first loop walks the parent links and inserts each node at the
  front of \<^verbatim>\<open>ancestors\<close>; the second feeds a fresh hash object with the digest of
  each node's value, as the value is now; the assertion compares the hex digests (the
  \<^verbatim>\<open>assert\<close> statement is taken as executed, as the interpreter does by default).
\<close>

fun ancestors_loop :: "Node option \<Rightarrow> Node list \<Rightarrow> Node list" where
  "ancestors_loop None ancestors = ancestors"
| "ancestors_loop (Some (Node r v p)) ancestors = ancestors_loop p (Node r v p # ancestors)"

fun verify_loop :: "heap \<Rightarrow> Hash \<Rightarrow> Node list \<Rightarrow> error + Hash" where
  "verify_loop h hasher [] = Inr hasher"
| "verify_loop h hasher (node # nodes) =
     (case Value_digest (Node_value h node) of
        Inl e \<Rightarrow> Inl e
      | Inr d \<Rightarrow> verify_loop h (Hash_update hasher d) nodes)"

definition Tree_verify :: "Tree \<Rightarrow> heap \<Rightarrow> error + unit" where
  "Tree_verify t h =
     (case verify_loop h (Hash_copy INIT_HASHER) (ancestors_loop (root t) []) of
        Inl e \<Rightarrow> Inl e
      | Inr hasher \<Rightarrow>
          (case root t of
             None \<Rightarrow> Inr ()
           | Some r \<Rightarrow>
               if Hash_hexdigest hasher = Node_hash h r then Inr () else Inl AssertionError))"

text \<open>
  The script at the end of the file builds two values, a tree from them, and later
  assigns \<^verbatim>\<open>tree.root._value._value[0] = String("quux")\<close>: an item assignment on the
  list of the \<^verbatim>\<open>Array\<close> that the root node holds.
\<close>

definition main_heap :: heap where
  "main_heap = \<lparr>hashers = [], vals = [String (str ''foo''), Array [str ''bar'', str ''baz'']]\<rparr>"

definition setitem :: "ref \<Rightarrow> nat \<Rightarrow> pystr \<Rightarrow> heap \<Rightarrow> error + heap" where
  "setitem r i s h =
     (case vals h ! r of
        String _ \<Rightarrow> Inl TypeError
      | Array items \<Rightarrow>
          if i < length items then Inr (h\<lparr>vals := (vals h)[r := Array (items[i := s])]\<rparr>)
          else Inl IndexError)"

text \<open>
  The states the script goes through: the digests of its values, the two nodes it
  creates, the heap after the first and after the second \<^verbatim>\<open>append\<close>, and the heap
  after the assignment.
\<close>

definition digest_foo :: bytes where
  "digest_foo = fromhex ''2c26b46b68ffc68ff99b453c1d30413413422d706483bfa0f98a5e886266e7ae''"

definition digest_bar :: bytes where
  "digest_bar = fromhex ''fcde2b2edba56bf408601fb721fe9b5c338d10ee429ea04fae5511b68fbf8fb9''"

definition digest_baz :: bytes where
  "digest_baz = fromhex ''baa5a0964d3320fbc0c6a922140453c8513ea24ab8fd0577034804a967248096''"

definition digest_bar_baz :: bytes where
  "digest_bar_baz = fromhex ''76a857d9109b835d24a723f449467a064f82eb08684739bd87951093f6eb6191''"

definition main_node1 :: Node where
  "main_node1 = Node 0 0 None"

definition main_node2 :: Node where
  "main_node2 = Node 1 1 (Some main_node1)"

definition main_heap1 :: heap where
  "main_heap1 = main_heap\<lparr>hashers := [Hash digest_foo]\<rparr>"

definition main_heap2 :: heap where
  "main_heap2 = main_heap\<lparr>hashers := [Hash digest_foo, Hash (digest_foo @ digest_bar_baz)]\<rparr>"

definition main_heap3 :: heap where
  "main_heap3 =
     main_heap2\<lparr>vals := [String (str ''foo''), Array [str ''quux'', str ''baz'']]\<rparr>"

text \<open>A heap that holds the single value \<^verbatim>\<open>String("x")\<close>, and the digest of that value.\<close>

definition single_heap :: heap where
  "single_heap = \<lparr>hashers = [], vals = [String (str ''x'')]\<rparr>"

definition digest_x :: bytes where
  "digest_x = fromhex ''2d711642b726b04401627ca9fbac32f5c8530fb1903cc4db02258717921a4881''"

section \<open>Notions used to state the properties\<close>

text \<open>The nodes of a chain, oldest first, and the number of nodes of a tree.\<close>

fun chain :: "Node \<Rightarrow> Node list" where
  "chain (Node r v None) = [Node r v None]"
| "chain (Node r v (Some p)) = chain p @ [Node r v (Some p)]"

definition Tree_nodes :: "Tree \<Rightarrow> Node list" where
  "Tree_nodes t = (case root t of None \<Rightarrow> [] | Some n \<Rightarrow> chain n)"

text \<open>The results of a list of computations, or the first error among them.\<close>

fun collect :: "('a \<Rightarrow> error + 'b) \<Rightarrow> 'a list \<Rightarrow> error + 'b list" where
  "collect f [] = Inr []"
| "collect f (x # xs) =
     (case f x of
        Inl e \<Rightarrow> Inl e
      | Inr y \<Rightarrow> (case collect f xs of Inl e \<Rightarrow> Inl e | Inr ys \<Rightarrow> Inr (y # ys)))"

text \<open>
  The digest of a chain recomputed from the values alone: the digests of the values the
  nodes hold now, oldest first, concatenated and hashed.
\<close>

definition recomputed :: "heap \<Rightarrow> Node list \<Rightarrow> error + string" where
  "recomputed h ns =
     (case collect (\<lambda>n. Value_digest (Node_value h n)) ns of
        Inl e \<Rightarrow> Inl e
      | Inr ds \<Rightarrow> Inr (hex (sha256 (concat ds))))"

text \<open>
  A node is allocated in a heap when both objects it refers to exist there. The hash
  object of a node is fed by its values when it holds exactly the digests of the values
  of the chain up to the node, as they are now.
\<close>

definition allocated :: "heap \<Rightarrow> Node \<Rightarrow> bool" where
  "allocated h n = (node_hasher n < length (hashers h) \<and> node_value n < length (vals h))"

definition fed_by_values :: "heap \<Rightarrow> Node \<Rightarrow> bool" where
  "fed_by_values h n =
     (case collect (\<lambda>m. Value_digest (Node_value h m)) (chain n) of
        Inl e \<Rightarrow> False
      | Inr ds \<Rightarrow> hashers h ! node_hasher n = Hash (concat ds))"

definition chain_inv :: "heap \<Rightarrow> Tree \<Rightarrow> bool" where
  "chain_inv h t =
     (list_all (allocated h) (Tree_nodes t) \<and>
      (case root t of None \<Rightarrow> True | Some n \<Rightarrow> fed_by_values h n))"

text \<open>
  A heap grows when objects are created and none is changed. A tree is built by
  appends alone when it is reached from the empty tree by \<^verbatim>\<open>append\<close>, with any
  creation of objects in between and no change to an existing one.
\<close>

definition grows :: "heap \<Rightarrow> heap \<Rightarrow> bool" where
  "grows h h' =
     (take (length (hashers h)) (hashers h') = hashers h \<and>
      take (length (vals h)) (vals h') = vals h)"

inductive built :: "heap \<Rightarrow> Tree \<Rightarrow> bool" where
  built_new: "built h Tree_new"
| built_append:
    "built h t \<Longrightarrow> v < length (vals h) \<Longrightarrow> Tree_append v t h = Inr (t', h') \<Longrightarrow> built h' t'"
| built_grows: "built h t \<Longrightarrow> grows h h' \<Longrightarrow> built h' t"


text \<open>The length of a list, counted in an accumulator.\<close>

fun len :: "'a list \<Rightarrow> nat \<Rightarrow> nat" where
  "len [] n = n"
| "len (x # xs) n = len xs (n + 1)"

section \<open>Running SHA-256 in the simplifier\<close>

text \<open>
  Recursion on a numeral, one step at a time, and the length of a list as a numeral.
\<close>

lemma bits_of_nat_numeral:
  "bits_of_nat (numeral k) n = odd n # bits_of_nat (pred_numeral k) (n div 2)"
  by (simp add: numeral_eq_Suc)

lemma bits_of_nat_num:
  "bits_of_nat (numeral m) (numeral (num.Bit0 k)) = False # bits_of_nat (pred_numeral m) (numeral k)"
  "bits_of_nat (numeral m) (numeral (num.Bit1 k)) = True # bits_of_nat (pred_numeral m) (numeral k)"
  "bits_of_nat (numeral m) (numeral num.One) = True # bits_of_nat (pred_numeral m) 0"
  "bits_of_nat (numeral m) 0 = False # bits_of_nat (pred_numeral m) 0"
  by (simp_all add: bits_of_nat_numeral)

lemma schedule_numeral:
  "schedule (numeral k) ws = hd ws # schedule (pred_numeral k) (tl ws @ [next_w ws])"
  by (simp add: numeral_eq_Suc)

lemma replicate_num: "replicate (numeral k) x = x # replicate (pred_numeral k) x"
  by (simp add: numeral_eq_Suc)

lemma take_num: "take (numeral k) (x # xs) = x # take (pred_numeral k) xs"
  by (simp add: numeral_eq_Suc)

lemma drop_num: "drop (numeral k) (x # xs) = drop (pred_numeral k) xs"
  by (simp add: numeral_eq_Suc)

lemma blocks_Nil: "blocks hs [] = hs"
  by (simp add: blocks.simps)

lemma blocks_Cons:
  "blocks hs (w # ws) = blocks (compress hs (take 16 (w # ws))) (drop 16 (w # ws))"
  by (subst blocks.simps) simp

lemma len_length: "len xs n = length xs + n"
  by (induction xs arbitrary: n) auto

lemma pad_len:
  "pad m = m @ [0x80] @ replicate ((119 - len m 0 mod 64) mod 64) 0 @ be64 (8 * len m 0)"
  by (simp add: pad_def len_length)

lemmas sha_parse = pad_len be64_def u32_of_bytes_def bits_of_nat_numeral replicate_num

lemmas sha_rounds =
  xor32.simps and32.simps adc.simps not32_def add32_def rotr_def shr_def Ch_def Maj_def
  bsig0_def bsig1_def ssig0_def ssig1_def u32_of_nat_def K_def H0_def
  next_w.simps(1) schedule.simps(1) schedule_numeral T1.simps(1) T2.simps(1) rotate.simps(1)
  sha_round_def compress_def bits_of_nat_num bits_of_nat.simps(1) replicate_num replicate.simps
  take_num drop_num take_0 drop_0 take_Nil drop_Nil blocks_Nil blocks_Cons
  append.simps list.map zip_Cons_Cons zip_Nil fold_simps o_apply list.sel
  simp_thms pred_numeral_simps Num.BitM.simps fst_conv snd_conv case_prod_conv

lemmas sha_output = be_bytes_def nat_of_bits_def

section \<open>The operations on bit lists are the operations on numbers\<close>

text \<open>
  Read as numbers, the bit lists behave as 32-bit words do: \<open>xor32\<close> and \<open>and32\<close> are
  the bitwise operations, \<open>add32\<close> is addition modulo \<open>2^32\<close>, \<open>shr\<close> is the shift to the
  right and \<open>rotr\<close> the rotation.
\<close>

unbundle bit_operations_syntax

lemma nat_of_bits_Nil: "nat_of_bits [] = 0"
  by (simp add: nat_of_bits_def)

lemma nat_of_bits_Cons: "nat_of_bits (b # bs) = of_bool b + 2 * nat_of_bits bs"
  by (simp add: nat_of_bits_def)

lemma nat_of_bits_less: "nat_of_bits bs < 2 ^ length bs"
  by (induction bs) (auto simp: nat_of_bits_Nil nat_of_bits_Cons)

lemma nat_of_bits_of_nat: "nat_of_bits (bits_of_nat k n) = n mod 2 ^ k"
proof (induction k arbitrary: n)
  case 0
  show ?case by (simp add: nat_of_bits_Nil)
next
  case (Suc k)
  have "n mod (2 * 2 ^ k) = 2 * (n div 2 mod 2 ^ k) + n mod 2"
    by (rule mod_mult2_eq)
  then show ?case by (simp add: nat_of_bits_Cons Suc.IH mod_2_eq_odd)
qed

lemma length_bits_of_nat: "length (bits_of_nat k n) = k"
  by (induction k arbitrary: n) simp_all

lemma mod_double:
  fixes s k N :: nat
  assumes "s < 2"
  shows "(s + 2 * k) mod (2 * N) = s + 2 * (k mod N)"
proof -
  have "(s + 2 * k) mod (2 * N) = 2 * ((s + 2 * k) div 2 mod N) + (s + 2 * k) mod 2"
    by (rule mod_mult2_eq)
  moreover have "(s + 2 * k) div 2 = k" using assms by simp
  moreover have "(s + 2 * k) mod 2 = s" using assms by simp
  ultimately show ?thesis by simp
qed

lemma nat_of_bits_adc:
  "length xs = length ys \<Longrightarrow>
     nat_of_bits (adc c xs ys) = (of_bool c + nat_of_bits xs + nat_of_bits ys) mod 2 ^ length xs"
proof (induction xs ys arbitrary: c rule: list_induct2)
  case Nil
  show ?case by (simp add: nat_of_bits_Nil)
next
  case (Cons x xs y ys)
  let ?s = "of_bool ((x \<noteq> y) \<noteq> c) :: nat"
  let ?c = "(x \<and> y) \<or> (c \<and> (x \<noteq> y))"
  have split: "of_bool c + (of_bool x + 2 * nat_of_bits xs) + (of_bool y + 2 * nat_of_bits ys) =
     ?s + 2 * (of_bool ?c + nat_of_bits xs + nat_of_bits ys)"
    by (cases x; cases y; cases c) simp_all
  have e: "(2 :: nat) ^ length (x # xs) = 2 * 2 ^ length xs" by simp
  have "?s < 2" by simp
  from mod_double [OF this, of "of_bool ?c + nat_of_bits xs + nat_of_bits ys" "2 ^ length xs"]
  show ?case unfolding e by (simp only: adc.simps nat_of_bits_Cons Cons.IH split)
qed

lemma nat_of_bits_xor32:
  "length xs = length ys \<Longrightarrow> nat_of_bits (xor32 xs ys) = nat_of_bits xs XOR nat_of_bits ys"
proof (induction xs ys rule: list_induct2)
  case Nil
  show ?case by (simp add: nat_of_bits_Nil)
next
  case (Cons x xs y ys)
  show ?case
    by (subst xor_rec [of "nat_of_bits (x # xs)"]) (simp add: nat_of_bits_Cons Cons.IH)
qed

lemma nat_of_bits_and32:
  "length xs = length ys \<Longrightarrow> nat_of_bits (and32 xs ys) = nat_of_bits xs AND nat_of_bits ys"
proof (induction xs ys rule: list_induct2)
  case Nil
  show ?case by (simp add: nat_of_bits_Nil)
next
  case (Cons x xs y ys)
  show ?case
    by (subst and_rec [of "nat_of_bits (x # xs)"]) (simp add: nat_of_bits_Cons Cons.IH)
qed


lemma nat_of_bits_add32:
  "length x = 32 \<Longrightarrow> length y = 32 \<Longrightarrow>
     nat_of_bits (add32 x y) = (nat_of_bits x + nat_of_bits y) mod 2 ^ 32"
  by (simp add: add32_def nat_of_bits_adc)

lemma nat_of_bits_append:
  "nat_of_bits (xs @ ys) = nat_of_bits xs + 2 ^ length xs * nat_of_bits ys"
  by (induction xs) (simp_all add: nat_of_bits_Nil nat_of_bits_Cons algebra_simps)

lemma nat_of_bits_replicate_False: "nat_of_bits (replicate n False) = 0"
  by (induction n) (simp_all add: nat_of_bits_Nil nat_of_bits_Cons)

lemma nat_of_bits_drop: "nat_of_bits (drop n xs) = nat_of_bits xs div 2 ^ n"
proof (induction n arbitrary: xs)
  case 0
  show ?case by simp
next
  case (Suc n)
  show ?case
  proof (cases xs)
    case Nil
    then show ?thesis by (simp add: nat_of_bits_Nil)
  next
    case (Cons x xs')
    have "(of_bool x + 2 * nat_of_bits xs') div (2 * 2 ^ n) =
          (of_bool x + 2 * nat_of_bits xs') div 2 div 2 ^ n"
      by (rule div_mult2_eq)
    moreover have "(of_bool x + 2 * nat_of_bits xs') div 2 = nat_of_bits xs'" by simp
    ultimately have "(of_bool x + 2 * nat_of_bits xs') div (2 * 2 ^ n) = nat_of_bits xs' div 2 ^ n"
      by (simp only:)
    then show ?thesis using Cons by (simp only: drop_Suc_Cons Suc.IH nat_of_bits_Cons power_Suc)
  qed
qed

lemma nat_of_bits_take: "nat_of_bits (take n xs) = nat_of_bits xs mod 2 ^ n"
proof (induction n arbitrary: xs)
  case 0
  show ?case by (simp add: nat_of_bits_Nil)
next
  case (Suc n)
  show ?case
  proof (cases xs)
    case Nil
    then show ?thesis by (simp add: nat_of_bits_Nil)
  next
    case (Cons x xs')
    have "of_bool x < (2 :: nat)" by simp
    from mod_double [OF this, of "nat_of_bits xs'" "2 ^ n"]
    show ?thesis using Cons by (simp add: Suc.IH nat_of_bits_Cons)
  qed
qed

lemma nat_of_bits_shr:
  "nat_of_bits (shr n x) = nat_of_bits x div 2 ^ n"
  by (simp add: shr_def nat_of_bits_append nat_of_bits_drop nat_of_bits_replicate_False)

lemma nat_of_bits_rotr:
  "n \<le> length x \<Longrightarrow>
     nat_of_bits (rotr n x) =
       nat_of_bits x div 2 ^ n + 2 ^ (length x - n) * (nat_of_bits x mod 2 ^ n)"
  by (simp add: rotr_def nat_of_bits_append nat_of_bits_drop nat_of_bits_take)

lemma nat_of_bits_not32:
  "nat_of_bits (not32 x) = 2 ^ length x - 1 - nat_of_bits x"
proof (induction x)
  case Nil
  show ?case by (simp add: not32_def nat_of_bits_Nil)
next
  case (Cons b bs)
  have "nat_of_bits bs < 2 ^ length bs" by (rule nat_of_bits_less)
  then show ?case using Cons by (cases b) (auto simp: not32_def nat_of_bits_Cons)
qed

section \<open>Digests of the messages that occur below\<close>

text \<open>
  Each is computed by the definition above: the message is padded and split into
  words, the blocks are compressed, and the state is written out as bytes. The first
  two are the published test vectors for the empty message and for \<^verbatim>\<open>abc\<close>; the
  text messages are given by their UTF-8 bytes.
\<close>

lemma sha256_empty:
  "sha256 ([]) =
     fromhex ''e3b0c44298fc1c149afbf4c8996fb92427ae41e4649b934ca495991b7852b855''"
  unfolding sha256_def
  apply (simp add: sha_parse)
  apply (simp only: sha_rounds)
  apply (simp add: sha_output)
  done

lemma sha256_abc:
  "sha256 (fromhex ''616263'') =
     fromhex ''ba7816bf8f01cfea414140de5dae2223b00361a396177a9cb410ff61f20015ad''"
  unfolding sha256_def
  apply (simp add: sha_parse)
  apply (simp only: sha_rounds)
  apply (simp add: sha_output)
  done

lemma sha256_foo:
  "sha256 (fromhex ''666f6f'') =
     fromhex ''2c26b46b68ffc68ff99b453c1d30413413422d706483bfa0f98a5e886266e7ae''"
  unfolding sha256_def
  apply (simp add: sha_parse)
  apply (simp only: sha_rounds)
  apply (simp add: sha_output)
  done

lemma sha256_bar:
  "sha256 (fromhex ''626172'') =
     fromhex ''fcde2b2edba56bf408601fb721fe9b5c338d10ee429ea04fae5511b68fbf8fb9''"
  unfolding sha256_def
  apply (simp add: sha_parse)
  apply (simp only: sha_rounds)
  apply (simp add: sha_output)
  done

lemma sha256_baz:
  "sha256 (fromhex ''62617a'') =
     fromhex ''baa5a0964d3320fbc0c6a922140453c8513ea24ab8fd0577034804a967248096''"
  unfolding sha256_def
  apply (simp add: sha_parse)
  apply (simp only: sha_rounds)
  apply (simp add: sha_output)
  done

lemma sha256_quux:
  "sha256 (fromhex ''71757578'') =
     fromhex ''053057fda9a935f2d4fa8c7bc62a411a26926e00b491c07c1b2ec1909078a0a2''"
  unfolding sha256_def
  apply (simp add: sha_parse)
  apply (simp only: sha_rounds)
  apply (simp add: sha_output)
  done

lemma sha256_x:
  "sha256 (fromhex ''78'') =
     fromhex ''2d711642b726b04401627ca9fbac32f5c8530fb1903cc4db02258717921a4881''"
  unfolding sha256_def
  apply (simp add: sha_parse)
  apply (simp only: sha_rounds)
  apply (simp add: sha_output)
  done

lemma sha256_bar_baz:
  "sha256 (fromhex ''fcde2b2edba56bf408601fb721fe9b5c338d10ee429ea04fae5511b68fbf8fb9'' @
       fromhex ''baa5a0964d3320fbc0c6a922140453c8513ea24ab8fd0577034804a967248096'') =
     fromhex ''76a857d9109b835d24a723f449467a064f82eb08684739bd87951093f6eb6191''"
  unfolding sha256_def
  apply (simp add: sha_parse)
  apply (simp only: sha_rounds)
  apply (simp add: sha_output)
  done

lemma sha256_quux_baz:
  "sha256 (fromhex ''053057fda9a935f2d4fa8c7bc62a411a26926e00b491c07c1b2ec1909078a0a2'' @
       fromhex ''baa5a0964d3320fbc0c6a922140453c8513ea24ab8fd0577034804a967248096'') =
     fromhex ''77fa4ddcadd3e46a3c6ca30b7355b36200d47e812c2c3a67403cd5b33b939432''"
  unfolding sha256_def
  apply (simp add: sha_parse)
  apply (simp only: sha_rounds)
  apply (simp add: sha_output)
  done

lemma sha256_baz_bar:
  "sha256 (fromhex ''baa5a0964d3320fbc0c6a922140453c8513ea24ab8fd0577034804a967248096'' @
       fromhex ''fcde2b2edba56bf408601fb721fe9b5c338d10ee429ea04fae5511b68fbf8fb9'') =
     fromhex ''be324a71df02dc7a90bec3682e40e0ae82d9d4d2783e166f55e3053e0afd61ba''"
  unfolding sha256_def
  apply (simp add: sha_parse)
  apply (simp only: sha_rounds)
  apply (simp add: sha_output)
  done

lemma sha256_foo_bar_baz:
  "sha256 (fromhex ''2c26b46b68ffc68ff99b453c1d30413413422d706483bfa0f98a5e886266e7ae'' @
       fromhex ''76a857d9109b835d24a723f449467a064f82eb08684739bd87951093f6eb6191'') =
     fromhex ''7d16301d44f1f89485eff2a4f54e212cb263e81683d938f280f54c78706c6322''"
  unfolding sha256_def
  apply (simp add: sha_parse)
  apply (simp only: sha_rounds)
  apply (simp add: sha_output)
  done

lemma sha256_foo_quux_baz:
  "sha256 (fromhex ''2c26b46b68ffc68ff99b453c1d30413413422d706483bfa0f98a5e886266e7ae'' @
       fromhex ''77fa4ddcadd3e46a3c6ca30b7355b36200d47e812c2c3a67403cd5b33b939432'') =
     fromhex ''28b79ada9118248e24a5028c2ba4ee68d5c1d6a9cb4f25ac76e3d70e70ec578f''"
  unfolding sha256_def
  apply (simp add: sha_parse)
  apply (simp only: sha_rounds)
  apply (simp add: sha_output)
  done

lemma sha256_sha256_x:
  "sha256 (fromhex ''2d711642b726b04401627ca9fbac32f5c8530fb1903cc4db02258717921a4881'') =
     fromhex ''0a325ca303eb3014c43ae004970f343634db176fa1697bcc8c9efac94626488d''"
  unfolding sha256_def
  apply (simp add: sha_parse)
  apply (simp only: sha_rounds)
  apply (simp add: sha_output)
  done

lemma sha256_empty_x:
  "sha256 (fromhex ''e3b0c44298fc1c149afbf4c8996fb92427ae41e4649b934ca495991b7852b855'' @
       fromhex ''2d711642b726b04401627ca9fbac32f5c8530fb1903cc4db02258717921a4881'') =
     fromhex ''9a14ded67f1cf76709d27c7700e04511a20291e1e6a4d254385db9ac4e2128d1''"
  unfolding sha256_def
  apply (simp add: sha_parse)
  apply (simp only: sha_rounds)
  apply (simp add: sha_output)
  done

lemma sha256_sha256_foo:
  "sha256 (fromhex ''2c26b46b68ffc68ff99b453c1d30413413422d706483bfa0f98a5e886266e7ae'') =
     fromhex ''c7ade88fc7a21498a6a5e5c385e1f68bed822b72aa63c4a9a48a02c2466ee29e''"
  unfolding sha256_def
  apply (simp add: sha_parse)
  apply (simp only: sha_rounds)
  apply (simp add: sha_output)
  done

lemma sha256_sha256_foo_bar_baz:
  "sha256 (fromhex ''c7ade88fc7a21498a6a5e5c385e1f68bed822b72aa63c4a9a48a02c2466ee29e'' @
       fromhex ''76a857d9109b835d24a723f449467a064f82eb08684739bd87951093f6eb6191'') =
     fromhex ''6b3e6e059cb77ca1a7af5e5dc2b17552559deec9416356ce287ac33c61174ac3''"
  unfolding sha256_def
  apply (simp add: sha_parse)
  apply (simp only: sha_rounds)
  apply (simp add: sha_output)
  done

text \<open>The same equations on byte lists, as rewrite rules.\<close>

lemmas sha256_values =
  sha256_empty [simplified]
  sha256_abc [simplified]
  sha256_foo [simplified]
  sha256_bar [simplified]
  sha256_baz [simplified]
  sha256_quux [simplified]
  sha256_x [simplified]
  sha256_bar_baz [simplified]
  sha256_quux_baz [simplified]
  sha256_baz_bar [simplified]
  sha256_foo_bar_baz [simplified]
  sha256_foo_quux_baz [simplified]
  sha256_sha256_x [simplified]
  sha256_empty_x [simplified]
  sha256_sha256_foo [simplified]
  sha256_sha256_foo_bar_baz [simplified]

section \<open>The loops in closed form\<close>

lemma collect_cong:
  "(\<And>x. x \<in> set xs \<Longrightarrow> f x = g x) \<Longrightarrow> collect f xs = collect g xs"
  by (induction xs) (auto split: sum.splits)

lemma collect_append:
  "collect f (xs @ ys) =
     (case collect f xs of
        Inl e \<Rightarrow> Inl e
      | Inr as \<Rightarrow> (case collect f ys of Inl e \<Rightarrow> Inl e | Inr bs \<Rightarrow> Inr (as @ bs)))"
  by (induction xs) (auto split: sum.splits)

lemma ancestors_loop_chain: "ancestors_loop (Some n) acc = chain n @ acc"
proof (induction n arbitrary: acc rule: chain.induct)
  case (1 r v)
  show ?case by simp
next
  case (2 r v p)
  show ?case by (simp add: "2.IH")
qed

lemma ancestors_loop_nodes: "ancestors_loop (root t) [] = Tree_nodes t"
  by (cases "root t") (simp_all add: Tree_nodes_def ancestors_loop_chain)

lemma verify_loop_collect:
  "verify_loop h x ns =
     (case collect (\<lambda>n. Value_digest (Node_value h n)) ns of
        Inl e \<Rightarrow> Inl e
      | Inr ds \<Rightarrow> Inr (Hash (fed x @ concat ds)))"
proof (induction ns arbitrary: x)
  case Nil
  show ?case by simp
next
  case (Cons n ns)
  show ?case
    by (cases "Value_digest (Node_value h n)")
       (simp_all add: Cons.IH Hash_update_def split: sum.splits)
qed

lemma Array_digest_loop_collect:
  "Array_digest_loop x vs =
     (case collect String_digest vs of
        Inl e \<Rightarrow> Inl e
      | Inr ds \<Rightarrow> Inr (Hash (fed x @ concat ds)))"
proof (induction vs arbitrary: x)
  case Nil
  show ?case by simp
next
  case (Cons v vs)
  show ?case
    by (cases "String_digest v") (simp_all add: Cons.IH Hash_update_def split: sum.splits)
qed

lemma fed_INIT: "fed (Hash_copy INIT_HASHER) = []"
  by (simp add: Hash_copy_def INIT_HASHER_def sha256_new_def)

lemma Tree_verify_eq:
  "Tree_verify t h =
     (case root t of
        None \<Rightarrow> Inr ()
      | Some n \<Rightarrow>
          (case recomputed h (chain n) of
             Inl e \<Rightarrow> Inl e
           | Inr x \<Rightarrow> if x = Node_hash h n then Inr () else Inl AssertionError))"
  by (cases "root t")
     (auto simp: Tree_verify_def ancestors_loop_chain verify_loop_collect fed_INIT recomputed_def
        Hash_hexdigest_def Hash_digest_def split: sum.splits)

lemma Array_digest_collect:
  "Array_digest items =
     (case collect String_digest items of
        Inl e \<Rightarrow> Inl e
      | Inr ds \<Rightarrow> Inr (sha256 (concat ds)))"
  by (simp add: Array_digest_def Array_digest_loop_collect fed_INIT Hash_digest_def
      split: sum.splits)

lemma encode_eq:
  "encode s = (if list_ex surrogate s then Inl UnicodeEncodeError else Inr (concat (map utf8 s)))"
  by (induction s) auto


section \<open>What construction and append do to the heap\<close>

lemma Node_init_Inr:
  assumes "Node_init v parent h = Inr (n, h')"
  shows "\<exists>d. Value_digest (vals h ! v) = Inr d \<and>
             n = Node (length (hashers h)) v parent \<and>
             vals h' = vals h \<and>
             hashers h' = hashers h @
               [Hash ((case parent of None \<Rightarrow> [] | Some p \<Rightarrow> fed (hashers h ! node_hasher p)) @ d)]"
  using assms
  by (cases parent)
     (auto simp: Node_init_def new_hash_def heap_update_def Hash_copy_def INIT_HASHER_def
        sha256_new_def Hash_update_def split: sum.splits)

lemma Tree_append_Inr:
  assumes "Tree_append v t h = Inr (t', h')"
  shows "\<exists>d. Value_digest (vals h ! v) = Inr d \<and>
             root t' = Some (Node (length (hashers h)) v (root t)) \<and>
             vals h' = vals h \<and>
             hashers h' = hashers h @
               [Hash ((case root t of None \<Rightarrow> [] | Some p \<Rightarrow> fed (hashers h ! node_hasher p)) @ d)]"
proof -
  from assms obtain n where n: "Node_init v (root t) h = Inr (n, h')" and t': "t' = t\<lparr>root := Some n\<rparr>"
    by (auto simp: Tree_append_def split: sum.splits)
  from Node_init_Inr [OF n] t' show ?thesis by auto
qed

lemma chain_Node: "chain (Node r v p) = (case p of None \<Rightarrow> [] | Some q \<Rightarrow> chain q) @ [Node r v p]"
  by (cases p) simp_all

lemma Tree_nodes_append:
  assumes "Tree_append v t h = Inr (t', h')"
  shows "Tree_nodes t' = Tree_nodes t @ [Node (length (hashers h)) v (root t)]"
  using Tree_append_Inr [OF assms] by (auto simp: Tree_nodes_def chain_Node)


section \<open>The invariant of a tree built by appends\<close>

lemma grows_length:
  assumes "grows h h'"
  shows "length (hashers h) \<le> length (hashers h')" and "length (vals h) \<le> length (vals h')"
proof -
  have "length (take (length (hashers h)) (hashers h')) = length (hashers h)"
    using assms by (simp add: grows_def)
  then show "length (hashers h) \<le> length (hashers h')" by simp
  have "length (take (length (vals h)) (vals h')) = length (vals h)"
    using assms by (simp add: grows_def)
  then show "length (vals h) \<le> length (vals h')" by simp
qed

lemma grows_nth:
  assumes "grows h h'"
  shows "i < length (hashers h) \<Longrightarrow> hashers h' ! i = hashers h ! i"
    and "j < length (vals h) \<Longrightarrow> vals h' ! j = vals h ! j"
proof -
  assume i: "i < length (hashers h)"
  have "take (length (hashers h)) (hashers h') ! i = hashers h' ! i" using i by simp
  then show "hashers h' ! i = hashers h ! i" using assms by (simp add: grows_def)
next
  assume j: "j < length (vals h)"
  have "take (length (vals h)) (vals h') ! j = vals h' ! j" using j by simp
  then show "vals h' ! j = vals h ! j" using assms by (simp add: grows_def)
qed

lemma chain_last: "n \<in> set (chain n)"
  by (cases n) (simp add: chain_Node)

lemma inv_new: "chain_inv h Tree_new"
  by (simp add: chain_inv_def Tree_new_def Tree_nodes_def)

lemma inv_grows:
  assumes "chain_inv h t" and "grows h h'"
  shows "chain_inv h' t"
proof -
  have alloc: "list_all (allocated h) (Tree_nodes t)"
    using assms(1) by (simp add: chain_inv_def)
  have alloc': "list_all (allocated h') (Tree_nodes t)"
    using alloc grows_length [OF assms(2)] by (fastforce simp: allocated_def list_all_iff)
  have fed': "fed_by_values h' n" if r: "root t = Some n" for n
  proof -
    have sub: "set (chain n) = set (Tree_nodes t)" using r by (simp add: Tree_nodes_def)
    have same: "collect (\<lambda>m. Value_digest (Node_value h' m)) (chain n) =
                collect (\<lambda>m. Value_digest (Node_value h m)) (chain n)"
      by (rule collect_cong)
         (use alloc sub grows_nth(2) [OF assms(2)] in
           \<open>simp add: Node_value_def allocated_def list_all_iff\<close>)
    have "n \<in> set (Tree_nodes t)" using sub chain_last by blast
    then have "hashers h' ! node_hasher n = hashers h ! node_hasher n"
      using alloc grows_nth(1) [OF assms(2)] by (simp add: allocated_def list_all_iff)
    moreover have "fed_by_values h n" using assms(1) r by (simp add: chain_inv_def)
    ultimately show ?thesis by (simp add: fed_by_values_def same split: sum.splits)
  qed
  show ?thesis using alloc' fed' by (auto simp: chain_inv_def split: option.splits)
qed

lemma inv_append:
  assumes "chain_inv h t" and "v < length (vals h)" and "Tree_append v t h = Inr (t', h')"
  shows "chain_inv h' t'"
proof -
  let ?n = "Node (length (hashers h)) v (root t)"
  from Tree_append_Inr [OF assms(3)] obtain d where
    d: "Value_digest (vals h ! v) = Inr d" and
    r: "root t' = Some ?n" and
    vs: "vals h' = vals h" and
    hs: "hashers h' = hashers h @
           [Hash ((case root t of None \<Rightarrow> [] | Some p \<Rightarrow> fed (hashers h ! node_hasher p)) @ d)]"
    by blast
  have nodes: "Tree_nodes t' = Tree_nodes t @ [?n]" by (rule Tree_nodes_append [OF assms(3)])
  have alloc: "list_all (allocated h) (Tree_nodes t)"
    using assms(1) by (simp add: chain_inv_def)
  have alloc': "list_all (allocated h') (Tree_nodes t')"
    using alloc assms(2) by (auto simp: nodes allocated_def hs vs list_all_iff)
  have old: "\<exists>ds. collect (\<lambda>m. Value_digest (Node_value h m)) (Tree_nodes t) = Inr ds \<and>
                  (case root t of None \<Rightarrow> [] | Some p \<Rightarrow> fed (hashers h ! node_hasher p)) = concat ds"
  proof (cases "root t")
    case None
    then show ?thesis by (simp add: Tree_nodes_def)
  next
    case (Some p)
    then have "fed_by_values h p" using assms(1) by (simp add: chain_inv_def)
    then show ?thesis using Some
      by (auto simp: fed_by_values_def Tree_nodes_def split: sum.splits)
  qed
  then obtain ds where
    ds: "collect (\<lambda>m. Value_digest (Node_value h m)) (Tree_nodes t) = Inr ds" and
    fd: "(case root t of None \<Rightarrow> [] | Some p \<Rightarrow> fed (hashers h ! node_hasher p)) = concat ds"
    by blast
  have "chain ?n = Tree_nodes t @ [?n]" by (simp add: chain_Node Tree_nodes_def)
  moreover have "collect (\<lambda>m. Value_digest (Node_value h' m)) (Tree_nodes t @ [?n]) = Inr (ds @ [d])"
    using ds d by (simp add: collect_append Node_value_def vs)
  moreover have "hashers h' ! node_hasher ?n = Hash (concat (ds @ [d]))"
    by (simp add: hs fd)
  ultimately have "fed_by_values h' ?n" by (simp add: fed_by_values_def)
  then show ?thesis using alloc' r by (simp add: chain_inv_def)
qed

lemma built_inv: "built h t \<Longrightarrow> chain_inv h t"
proof (induction rule: built.induct)
  case (built_new h)
  show ?case by (rule inv_new)
next
  case (built_append h t v t' h')
  then show ?case by (blast intro: inv_append)
next
  case (built_grows h t h')
  then show ?case by (blast intro: inv_grows)
qed

lemma inv_verify:
  assumes "chain_inv h t"
  shows "Tree_verify t h = Inr ()"
proof (cases "root t")
  case None
  then show ?thesis by (simp add: Tree_verify_eq)
next
  case (Some n)
  then have "fed_by_values h n" using assms by (simp add: chain_inv_def)
  then have "recomputed h (chain n) = Inr (Node_hash h n)"
    by (auto simp: fed_by_values_def recomputed_def Node_hash_def Hash_hexdigest_def
          Hash_digest_def split: sum.splits)
  then show ?thesis using Some by (simp add: Tree_verify_eq)
qed

lemma from_iter_loop_built:
  assumes "built h t" and "\<forall>v \<in> set vs. v < length (vals h)"
    and "from_iter_loop vs t h = Inr (t', h')"
  shows "built h' t'"
  using assms
proof (induction vs arbitrary: t h)
  case Nil
  then show ?case by simp
next
  case (Cons v vs)
  from Cons.prems(3) obtain t1 h1 where
    a: "Tree_append v t h = Inr (t1, h1)" and l: "from_iter_loop vs t1 h1 = Inr (t', h')"
    by (auto split: sum.splits)
  have b: "built h1 t1" using Cons.prems(1,2) a by (auto intro: built_append)
  have "vals h1 = vals h" using Tree_append_Inr [OF a] by blast
  then have "\<forall>v \<in> set vs. v < length (vals h1)" using Cons.prems(2) by simp
  from Cons.IH [OF b this l] show ?case .
qed


section \<open>Errors of the digests\<close>

lemma String_digest_eq:
  "String_digest s =
     (if list_ex surrogate s then Inl UnicodeEncodeError
      else Inr (sha256 (concat (map utf8 s))))"
  by (simp add: String_digest_def encode_eq Hash_digest_def sha256_new_def)

lemma collect_String_digest:
  "collect String_digest items =
     (if list_ex (list_ex surrogate) items then Inl UnicodeEncodeError
      else Inr (map (\<lambda>s. sha256 (concat (map utf8 s))) items))"
  by (induction items) (auto simp: String_digest_eq)

lemma Value_digest_error: "Value_digest x = Inl e \<Longrightarrow> e = UnicodeEncodeError"
  by (cases x)
     (auto simp: String_digest_eq Array_digest_collect collect_String_digest
        split: if_splits sum.splits)

lemma collect_Value_digest_error:
  "collect (\<lambda>n. Value_digest (f n)) ns = Inl e \<Longrightarrow> e = UnicodeEncodeError"
  by (induction ns arbitrary: e) (auto split: sum.splits dest: Value_digest_error)

lemma recomputed_error: "recomputed h ns = Inl e \<Longrightarrow> e = UnicodeEncodeError"
  by (auto simp: recomputed_def split: sum.splits dest: collect_Value_digest_error)

lemma from_iter_built:
  assumes "\<forall>v \<in> set vs. v < length (vals h)" and "Tree_from_iter vs h = Inr (t, h')"
  shows "built h' t"
  using from_iter_loop_built [OF built_new assms(1)] assms(2) by (simp add: Tree_from_iter_def)

lemma from_iter_loop_nodes:
  "from_iter_loop vs t h = Inr (t', h') \<Longrightarrow>
     map node_value (Tree_nodes t') = map node_value (Tree_nodes t) @ vs \<and> vals h' = vals h"
proof (induction vs arbitrary: t h)
  case Nil
  then show ?case by simp
next
  case (Cons v vs)
  from Cons.prems obtain t1 h1 where
    a: "Tree_append v t h = Inr (t1, h1)" and l: "from_iter_loop vs t1 h1 = Inr (t', h')"
    by (auto split: sum.splits)
  have "vals h1 = vals h" using Tree_append_Inr [OF a] by blast
  with Cons.IH [OF l] Tree_nodes_append [OF a] show ?case by simp
qed

lemma collect_map: "collect f (map g xs) = collect (\<lambda>x. f (g x)) xs"
  by (induction xs) (auto split: sum.splits)

section \<open>UTF-8 loses nothing\<close>

lemma digits64: "(c :: nat) = c div 64 * 64 + c mod 64"
  by (rule div_mult_mod_eq [symmetric])

lemma digits64_3:
  "(c :: nat) div 4096 * 4096 + c div 64 mod 64 * 64 + c mod 64 = c"
proof -
  have aux: "\<And>c q cm r qm :: nat. c = q * 64 + cm \<Longrightarrow> q = r * 64 + qm \<Longrightarrow>
               c = r * 4096 + qm * 64 + cm"
    by simp
  have 1: "c div 64 div 64 = c div 4096" using div_mult2_eq [of c 64 64] by simp
  have "c = c div 64 div 64 * 4096 + c div 64 mod 64 * 64 + c mod 64"
    by (rule aux [OF digits64 digits64])
  then show ?thesis by (simp only: 1)
qed

lemma digits64_4:
  "(c :: nat) div 262144 * 262144 + c div 4096 mod 64 * 4096 + c div 64 mod 64 * 64 + c mod 64 = c"
proof -
  have aux: "\<And>c q cm r qm s rm :: nat. c = q * 64 + cm \<Longrightarrow> q = r * 64 + qm \<Longrightarrow>
               r = s * 64 + rm \<Longrightarrow> c = s * 262144 + rm * 4096 + qm * 64 + cm"
    by simp
  have 1: "c div 64 div 64 = c div 4096" using div_mult2_eq [of c 64 64] by simp
  have 2: "c div 4096 div 64 = c div 262144" using div_mult2_eq [of c 4096 64] by simp
  have "c = c div 64 div 64 div 64 * 262144 + c div 64 div 64 mod 64 * 4096 +
            c div 64 mod 64 * 64 + c mod 64"
    by (rule aux [OF digits64 digits64 digits64])
  then show ?thesis by (simp only: 1 2)
qed

lemma utf8n_decode: "utf8n_decode (utf8n c) = c"
  using digits64 [of c] digits64_3 [of c] digits64_4 [of c] by (simp add: utf8n_def)

lemma utf8n_length: "c < 0x110000 \<Longrightarrow> length (utf8n c) = utf8_length (hd (utf8n c))"
proof -
  assume c: "c < 0x110000"
  have 2: "c < 0x800 \<Longrightarrow> c div 64 < 32" by simp
  have 3: "c < 0x10000 \<Longrightarrow> c div 4096 < 16" by simp
  show ?thesis using 2 3 by (auto simp: utf8n_def utf8_length_def)
qed

lemma utf8n_not_Nil: "utf8n c \<noteq> []"
  by (simp add: utf8n_def)

lemma utf8n_prefix_free:
  assumes "c < 0x110000" and "d < 0x110000" and "utf8n c @ xs = utf8n d @ ys"
  shows "c = d \<and> xs = ys"
proof -
  have "hd (utf8n c @ xs) = hd (utf8n d @ ys)" using assms(3) by simp
  then have "hd (utf8n c) = hd (utf8n d)" by (simp add: utf8n_not_Nil)
  then have "length (utf8n c) = length (utf8n d)"
    using utf8n_length [OF assms(1)] utf8n_length [OF assms(2)] by simp
  with assms(3) have eq: "utf8n c = utf8n d" and rest: "xs = ys" by simp_all
  have "c = utf8n_decode (utf8n c)" by (simp only: utf8n_decode)
  also have "\<dots> = utf8n_decode (utf8n d)" by (simp only: eq)
  also have "\<dots> = d" by (simp only: utf8n_decode)
  finally show ?thesis using rest by simp
qed


lemma unat_byte: "n < 256 \<Longrightarrow> unat (of_nat n :: byte) = n"
  by (intro of_nat_inverse [OF refl]) simp

lemma map_unat_of_nat:
  "\<forall>n \<in> set ns. n < 256 \<Longrightarrow> map unat (map of_nat ns :: bytes) = ns"
  by (induction ns) (simp_all add: unat_byte)

lemma utf8_utf8n: "utf8 c = map of_nat (utf8n c)"
  by (simp add: utf8_def utf8n_def)

lemma utf8n_bytes: "c < 0x110000 \<Longrightarrow> \<forall>n \<in> set (utf8n c). n < 256"
proof -
  assume c: "c < 0x110000"
  have 2: "c < 0x800 \<Longrightarrow> c div 64 < 32" by simp
  have 3: "c < 0x10000 \<Longrightarrow> c div 4096 < 16" by simp
  have 4: "c div 262144 < 5" using c by simp
  have m: "c mod 64 < 64" "c div 64 mod 64 < 64" "c div 4096 mod 64 < 64" by simp_all
  show ?thesis using 2 3 4 m by (auto simp: utf8n_def)
qed

lemma unat_utf8: "c < 0x110000 \<Longrightarrow> map unat (utf8 c) = utf8n c"
  unfolding utf8_utf8n by (rule map_unat_of_nat) (rule utf8n_bytes)

lemma utf8_prefix_free:
  assumes "c < 0x110000" and "d < 0x110000" and "utf8 c @ xs = utf8 d @ ys"
  shows "c = d \<and> xs = ys"
proof -
  have "map unat (utf8 c @ xs) = map unat (utf8 d @ ys)" by (simp only: assms(3))
  then have "utf8n c @ map unat xs = utf8n d @ map unat ys"
    by (simp add: unat_utf8 assms(1,2))
  from utf8n_prefix_free [OF assms(1,2) this] have "c = d" by simp
  with assms(3) show ?thesis by simp
qed

lemma utf8_not_Nil: "utf8 c \<noteq> []"
  by (simp add: utf8_utf8n utf8n_not_Nil)

lemma encode_inj:
  assumes "\<forall>c \<in> set s. c < 0x110000" and "\<forall>c \<in> set t. c < 0x110000"
    and "encode s = Inr b" and "encode t = Inr b"
  shows "s = t"
  using assms
proof (induction s arbitrary: t b)
  case Nil
  then have "b = []" by simp
  with Nil.prems(4) show ?case
    by (cases t) (auto simp: utf8_not_Nil split: if_splits sum.splits)
next
  case (Cons c s)
  from Cons.prems(3) obtain bs where bs: "encode s = Inr bs" and b: "b = utf8 c @ bs"
    by (auto split: if_splits sum.splits)
  show ?case
  proof (cases t)
    case Nil
    then show ?thesis using Cons.prems(4) b by (simp add: utf8_not_Nil)
  next
    case (Cons d t')
    with Cons.prems(4) obtain bs' where bs': "encode t' = Inr bs'" and b': "b = utf8 d @ bs'"
      by (auto split: if_splits sum.splits)
    have cd: "c = d \<and> bs = bs'"
      using utf8_prefix_free [of c d bs bs'] Cons.prems(1,2) Cons b b' by simp
    have "s = t'"
      using Cons.IH [of t' bs] Cons.prems(1,2) Cons bs bs' cd by simp
    then show ?thesis using Cons cd by simp
  qed
qed

section \<open>The length of a digest\<close>

lemma length_sha_round: "length (sha_round kw s) = length s"
  by (cases "(T1 (fst kw) (snd kw) s, T2 s, s)" rule: rotate.cases) (simp_all add: sha_round_def)

lemma length_fold_sha_round: "length (fold sha_round kws s) = length s"
  by (induction kws arbitrary: s) (simp_all add: length_sha_round)

lemma length_compress: "length (compress hs block) = length hs"
  by (simp add: compress_def length_fold_sha_round)

lemma length_blocks: "length (blocks hs ws) = length hs"
proof (induction hs ws rule: blocks.induct)
  case (1 hs ws)
  show ?case
  proof (cases "ws = []")
    case True
    then show ?thesis by (simp add: blocks.simps)
  next
    case False
    then have "blocks hs ws = blocks (compress hs (take 16 ws)) (drop 16 ws)"
      by (subst blocks.simps) simp
    with "1.IH" [OF False] show ?thesis by (simp add: length_compress)
  qed
qed

lemma length_concat_be_bytes: "length (concat (map be_bytes ws)) = 4 * length ws"
  by (induction ws) (simp_all add: be_bytes_def)

lemma length_sha256: "length (sha256 m) = 32"
  by (simp add: sha256_def length_concat_be_bytes length_blocks H0_def)


text \<open>
  Digests have 32 bytes, and there are more texts of 257 letters \<^verbatim>\<open>a\<close> or \<^verbatim>\<open>b\<close>
  than sequences of 32 bytes. So two different such texts have the same digest, and with
  these two as items the digest of an \<^verbatim>\<open>Array\<close> is the same in both orders: the
  order of the items shows in the digest only as far as SHA-256 does not collide.
\<close>

lemma String_digest_collision:
  "\<exists>a b. a \<noteq> b \<and> length a = 257 \<and> length b = 257 \<and>
     set a \<subseteq> {0x61, 0x62} \<and> set b \<subseteq> {0x61, 0x62} \<and>
     sha256 (concat (map utf8 a)) = sha256 (concat (map utf8 b))"
proof -
  let ?A = "{s :: pystr. set s \<subseteq> {0x61, 0x62} \<and> length s = 257}"
  let ?B = "{bs :: bytes. set bs \<subseteq> UNIV \<and> length bs = 32}"
  let ?f = "\<lambda>s. sha256 (concat (map utf8 s))"
  have "card ?A = card {0x61, 0x62 :: nat} ^ 257"
    by (rule card_lists_length_eq) simp
  moreover have "card {0x61, 0x62 :: nat} = 2" by simp
  ultimately have A: "card ?A = 2 ^ 257" by (simp only:)
  have fB: "finite ?B" by (rule finite_lists_length_eq) simp
  have "card ?B = card (UNIV :: byte set) ^ 32"
    by (rule card_lists_length_eq) simp
  moreover have "card (UNIV :: byte set) = 256" by (simp add: card_word)
  ultimately have B: "card ?B = 256 ^ 32" by (simp only:)
  have "?f ` ?A \<subseteq> ?B" by (auto simp: length_sha256)
  then have "card (?f ` ?A) \<le> card ?B" using fB by (rule card_mono [rotated])
  also have "\<dots> < card ?A" unfolding A B by simp
  finally have "\<not> inj_on ?f ?A" by (rule pigeonhole)
  then show ?thesis by (auto simp: inj_on_def)
qed

lemma Array_digest_collision:
  "\<exists>a b. a \<noteq> b \<and> length a = 257 \<and> length b = 257 \<and>
     set a \<subseteq> {0x61, 0x62} \<and> set b \<subseteq> {0x61, 0x62} \<and>
     (\<exists>d. Value_digest (Array [a, b]) = Inr d \<and> Value_digest (Array [b, a]) = Inr d)"
proof -
  obtain a b :: pystr where ab: "a \<noteq> b" "length a = 257" "length b = 257"
    "set a \<subseteq> {0x61, 0x62}" "set b \<subseteq> {0x61, 0x62}"
    and eq: "sha256 (concat (map utf8 a)) = sha256 (concat (map utf8 b))"
    using String_digest_collision by blast
  let ?d = "sha256 (concat (map utf8 b))"
  have "\<not> list_ex surrogate a" "\<not> list_ex surrogate b"
    using ab(4,5) by (auto simp: list_ex_iff surrogate_def)
  then have "Value_digest (Array [a, b]) = Inr (sha256 (?d @ ?d))"
    and "Value_digest (Array [b, a]) = Inr (sha256 (?d @ ?d))"
    using eq by (simp_all add: Array_digest_collect String_digest_eq)
  then show ?thesis using ab by blast
qed

section \<open>The script, step by step\<close>

lemmas heap_eval =
  Tree_from_iter_def Tree_new_def Tree_append_def Node_init_def new_hash_def heap_update_def
  Hash_copy_def INIT_HASHER_def sha256_new_def Hash_update_def Hash_digest_def
  Hash_hexdigest_def Node_hash_def Node_value_def String_digest_eq Array_digest_collect
  collect_String_digest surrogate_def str_def utf8_def Tree_verify_eq recomputed_def
  setitem_def

lemmas script_defs =
  main_heap_def main_heap1_def main_heap2_def main_heap3_def main_node1_def main_node2_def
  digest_foo_def digest_bar_def digest_baz_def digest_bar_baz_def single_heap_def digest_x_def

lemma main_digests:
  "Value_digest (vals main_heap ! 0) = Inr digest_foo"
  "Value_digest (vals main_heap ! 1) = Inr digest_bar_baz"
  "String_digest (str ''bar'') = Inr digest_bar"
  "String_digest (str ''baz'') = Inr digest_baz"
  by (simp_all add: heap_eval script_defs sha256_values)

lemma main_first_append:
  "Tree_append 0 Tree_new main_heap = Inr (\<lparr>root = Some main_node1\<rparr>, main_heap1)"
  by (simp add: heap_eval script_defs sha256_values)

lemma main_second_init:
  "Node_init 1 (Some main_node1) main_heap1 = Inr (main_node2, main_heap2)"
  by (simp add: heap_eval script_defs sha256_values)

lemma main_second_append:
  "Tree_append 1 \<lparr>root = Some main_node1\<rparr> main_heap1 =
     Inr (\<lparr>root = Some main_node2\<rparr>, main_heap2)"
  using main_second_init by (simp add: Tree_append_def)

lemma main_from_iter:
  "Tree_from_iter [0, 1] main_heap = Inr (\<lparr>root = Some main_node2\<rparr>, main_heap2)"
  using main_first_append main_second_append by (simp add: Tree_from_iter_def)

lemma main_setitem: "setitem (node_value main_node2) 0 (str ''quux'') main_heap2 = Inr main_heap3"
  by (simp add: setitem_def script_defs)

lemma main_stored_hash:
  "Node_hash main_heap2 main_node2 =
     ''7d16301d44f1f89485eff2a4f54e212cb263e81683d938f280f54c78706c6322''"
  apply (simp add: heap_eval script_defs sha256_values)
  apply (simp add: hex_def hexdigit_def)
  done

lemma main_recomputed:
  "recomputed main_heap3 (chain main_node2) =
     Inr ''28b79ada9118248e24a5028c2ba4ee68d5c1d6a9cb4f25ac76e3d70e70ec578f''"
  apply (simp add: heap_eval script_defs sha256_values)
  apply (simp add: hex_def hexdigit_def)
  done

lemma main_built: "built main_heap1 \<lparr>root = Some main_node1\<rparr>"
proof -
  have "built main_heap Tree_new" by (rule built_new)
  moreover have "0 < length (vals main_heap)" by (simp add: main_heap_def)
  ultimately show ?thesis using main_first_append by (rule built_append)
qed

section \<open>The digest stored in a node\<close>

text \<open>
  Claim C1, as the code has it. A node made by \<^verbatim>\<open>Node(value, parent)\<close> stores the
  digest \<open>H (F @ d)\<close>, where \<open>d\<close> is the digest of the value and \<open>F\<close> is all that has been
  fed to the hash object of the parent: the hash object of the node is a copy of the
  parent's, still open, updated with \<open>d\<close>. With no parent \<open>F\<close> is empty and the stored
  digest is \<open>H d\<close>. The finalized digest of the parent is not what is hashed.
\<close>

theorem Node_init_hash:
  assumes "Node_init v parent h = Inr (n, h')"
  shows "\<exists>d. Value_digest (vals h ! v) = Inr d \<and>
           hashers h' ! node_hasher n =
             Hash ((case parent of None \<Rightarrow> [] | Some p \<Rightarrow> fed (hashers h ! node_hasher p)) @ d) \<and>
           Node_hash h' n =
             hex (sha256
               ((case parent of None \<Rightarrow> [] | Some p \<Rightarrow> fed (hashers h ! node_hasher p)) @ d))"
proof -
  from Node_init_Inr [OF assms] obtain d where
    d: "Value_digest (vals h ! v) = Inr d" and
    n: "n = Node (length (hashers h)) v parent" and
    hs: "hashers h' = hashers h @
           [Hash ((case parent of None \<Rightarrow> [] | Some p \<Rightarrow> fed (hashers h ! node_hasher p)) @ d)]"
    by blast
  have "hashers h' ! node_hasher n =
          Hash ((case parent of None \<Rightarrow> [] | Some p \<Rightarrow> fed (hashers h ! node_hasher p)) @ d)"
    by (simp add: n hs)
  then show ?thesis using d by (simp add: Node_hash_def Hash_hexdigest_def Hash_digest_def)
qed

text \<open>The second node of the script: its parent has been fed the digest of \<^verbatim>\<open>"foo"\<close>.\<close>

theorem Node_init_hash_witness:
  "Node_init 1 (Some main_node1) main_heap1 = Inr (main_node2, main_heap2) \<and>
   (\<exists>d. Value_digest (vals main_heap1 ! 1) = Inr d \<and>
      Node_hash main_heap2 main_node2 =
        hex (sha256 (fed (hashers main_heap1 ! node_hasher main_node1) @ d)))"
  using Node_init_hash [OF main_second_init] main_second_init by auto

text \<open>
  Claim C1 as stated fails on that node. Its value has the digest
  \<open>digest_bar_baz\<close>; the digest it stores is not the hash of the finalized digest of
  its parent followed by \<open>digest_bar_baz\<close>.
\<close>

theorem Node_init_hash_counterexample:
  "Tree_from_iter [0] main_heap = Inr (\<lparr>root = Some main_node1\<rparr>, main_heap1) \<and>
   Node_init 1 (Some main_node1) main_heap1 = Inr (main_node2, main_heap2) \<and>
   Value_digest (vals main_heap1 ! 1) = Inr digest_bar_baz \<and>
   Node_hash main_heap2 main_node2 =
     ''7d16301d44f1f89485eff2a4f54e212cb263e81683d938f280f54c78706c6322'' \<and>
   hex (sha256 (Hash_digest (hashers main_heap1 ! node_hasher main_node1) @ digest_bar_baz)) =
     ''6b3e6e059cb77ca1a7af5e5dc2b17552559deec9416356ce287ac33c61174ac3'' \<and>
   Node_hash main_heap2 main_node2 \<noteq>
     hex (sha256 (Hash_digest (hashers main_heap1 ! node_hasher main_node1) @ digest_bar_baz))"
proof -
  have 1: "Tree_from_iter [0] main_heap = Inr (\<lparr>root = Some main_node1\<rparr>, main_heap1)"
    using main_first_append by (simp add: Tree_from_iter_def)
  have 2: "Value_digest (vals main_heap1 ! 1) = Inr digest_bar_baz"
    using main_digests(2) by (simp add: main_heap1_def)
  have 3: "hex (sha256 (Hash_digest (hashers main_heap1 ! node_hasher main_node1) @ digest_bar_baz)) =
     ''6b3e6e059cb77ca1a7af5e5dc2b17552559deec9416356ce287ac33c61174ac3''"
    apply (simp add: Hash_digest_def script_defs sha256_values)
    apply (simp add: hex_def hexdigit_def)
    done
  show ?thesis
    unfolding 3 main_stored_hash using 1 2 main_second_init by simp
qed

section \<open>Verification\<close>

text \<open>
  Claim C2. \<^verbatim>\<open>verify\<close> succeeds exactly when the tree is empty or the digest
  recomputed from the values of the nodes, oldest first, is the hash stored in the root
  node; it raises \<^verbatim>\<open>AssertionError\<close> exactly when the recomputed digest exists and
  differs from the stored one; the only other outcome is the \<^verbatim>\<open>UnicodeEncodeError\<close>
  of a value that can no longer be encoded, in which case there is no recomputed digest.
  The recomputed digest does not depend on any stored hash object, and the empty tree
  verifies.
\<close>

theorem verify_iff_recomputed:
  "(Tree_verify t h = Inr ()) =
     (root t = None \<or> (\<exists>n. root t = Some n \<and> recomputed h (chain n) = Inr (Node_hash h n))) \<and>
   (Tree_verify t h = Inl AssertionError) =
     (\<exists>n x. root t = Some n \<and> recomputed h (chain n) = Inr x \<and> x \<noteq> Node_hash h n) \<and>
   (Tree_verify t h = Inl UnicodeEncodeError) =
     (\<exists>n. root t = Some n \<and> recomputed h (chain n) = Inl UnicodeEncodeError) \<and>
   recomputed (h\<lparr>hashers := hs\<rparr>) ns = recomputed h ns \<and>
   Tree_verify Tree_new h = Inr ()"
proof -
  have 1: "(Tree_verify t h = Inr ()) =
     (root t = None \<or> (\<exists>n. root t = Some n \<and> recomputed h (chain n) = Inr (Node_hash h n)))"
    by (cases "root t") (auto simp: Tree_verify_eq split: sum.splits)
  have 2: "(Tree_verify t h = Inl AssertionError) =
     (\<exists>n x. root t = Some n \<and> recomputed h (chain n) = Inr x \<and> x \<noteq> Node_hash h n)"
    by (cases "root t") (auto simp: Tree_verify_eq split: sum.splits dest: recomputed_error)
  have 3: "(Tree_verify t h = Inl UnicodeEncodeError) =
     (\<exists>n. root t = Some n \<and> recomputed h (chain n) = Inl UnicodeEncodeError)"
    by (cases "root t") (auto simp: Tree_verify_eq split: sum.splits)
  have 4: "recomputed (h\<lparr>hashers := hs\<rparr>) ns = recomputed h ns"
    by (simp add: recomputed_def Node_value_def)
  have 5: "Tree_verify Tree_new h = Inr ()"
    by (simp add: Tree_verify_eq Tree_new_def)
  from 1 2 3 4 5 show ?thesis by simp
qed

text \<open>
  Claim C3. The script builds the tree of \<^verbatim>\<open>String("foo")\<close> and
  \<^verbatim>\<open>Array([String("bar"), String("baz")])\<close> and \<^verbatim>\<open>verify\<close> succeeds. It then
  assigns \<^verbatim>\<open>String("quux")\<close> to item 0 of the \<^verbatim>\<open>Array\<close> held by the root node.
  The hash stored in the root node stays what it was, the digest recomputed from the
  values is another one, and \<^verbatim>\<open>verify\<close> raises \<^verbatim>\<open>AssertionError\<close>.
\<close>

theorem script_detects_corruption:
  "Tree_from_iter [0, 1] main_heap = Inr (\<lparr>root = Some main_node2\<rparr>, main_heap2) \<and>
   Tree_verify \<lparr>root = Some main_node2\<rparr> main_heap2 = Inr () \<and>
   setitem (node_value main_node2) 0 (str ''quux'') main_heap2 = Inr main_heap3 \<and>
   Tree_verify \<lparr>root = Some main_node2\<rparr> main_heap3 = Inl AssertionError \<and>
   Node_hash main_heap3 main_node2 = Node_hash main_heap2 main_node2 \<and>
   Node_hash main_heap2 main_node2 =
     ''7d16301d44f1f89485eff2a4f54e212cb263e81683d938f280f54c78706c6322'' \<and>
   recomputed main_heap3 (chain main_node2) =
     Inr ''28b79ada9118248e24a5028c2ba4ee68d5c1d6a9cb4f25ac76e3d70e70ec578f''"
proof -
  have same: "Node_hash main_heap3 main_node2 = Node_hash main_heap2 main_node2"
    by (simp add: Node_hash_def main_heap3_def)
  have before: "Tree_verify \<lparr>root = Some main_node2\<rparr> main_heap2 = Inr ()"
    by (simp add: heap_eval script_defs sha256_values)
  have after: "Tree_verify \<lparr>root = Some main_node2\<rparr> main_heap3 = Inl AssertionError"
    by (simp add: Tree_verify_eq main_recomputed same main_stored_hash)
  show ?thesis
    using main_from_iter before main_setitem after same main_stored_hash main_recomputed
    by simp
qed

section \<open>The chain of a single value\<close>

text \<open>
  Claim C4, as the code has it. The tree made from the single value \<^verbatim>\<open>String("x")\<close>
  stores in its root the digest \<open>H (H x)\<close>, where \<open>H x\<close> is the digest of the value: the
  hash object starts as the one of the empty input, with nothing fed, and is fed \<open>H x\<close>
  only. The digest of the empty input is not part of what is hashed.
\<close>

theorem single_chain_hash:
  assumes "vals h ! v = String (str ''x'')"
  shows "\<exists>t h' n. Tree_from_iter [v] h = Inr (t, h') \<and> root t = Some n \<and>
           Node_hash h' n = hex (sha256 ([] @ sha256 (concat (map utf8 (str ''x''))))) \<and>
           Node_hash h' n = ''0a325ca303eb3014c43ae004970f343634db176fa1697bcc8c9efac94626488d''"
  using assms
  apply (simp add: heap_eval sha256_values)
  apply (simp add: hex_def hexdigit_def)
  done

theorem single_chain_hash_witness:
  "vals single_heap ! 0 = String (str ''x'') \<and>
   (\<exists>t h' n. Tree_from_iter [0] single_heap = Inr (t, h') \<and> root t = Some n \<and>
      Node_hash h' n = ''0a325ca303eb3014c43ae004970f343634db176fa1697bcc8c9efac94626488d'')"
proof -
  have v: "vals single_heap ! 0 = String (str ''x'')" by (simp add: single_heap_def)
  from single_chain_hash [OF v] show ?thesis using v by auto
qed

text \<open>
  Claim C4 as stated fails: the digest stored in the root is not the hash of the digest
  of the empty input followed by the digest of the value.
\<close>

theorem single_chain_hash_counterexample:
  "Tree_from_iter [0] single_heap =
     Inr (\<lparr>root = Some (Node 0 0 None)\<rparr>, single_heap\<lparr>hashers := [Hash digest_x]\<rparr>) \<and>
   Value_digest (String (str ''x'')) = Inr digest_x \<and>
   Node_hash (single_heap\<lparr>hashers := [Hash digest_x]\<rparr>) (Node 0 0 None) =
     ''0a325ca303eb3014c43ae004970f343634db176fa1697bcc8c9efac94626488d'' \<and>
   hex (sha256 (sha256 [] @ digest_x)) =
     ''9a14ded67f1cf76709d27c7700e04511a20291e1e6a4d254385db9ac4e2128d1'' \<and>
   Node_hash (single_heap\<lparr>hashers := [Hash digest_x]\<rparr>) (Node 0 0 None) \<noteq>
     hex (sha256 (sha256 [] @ digest_x))"
  apply (simp add: heap_eval script_defs sha256_values)
  apply (simp add: hex_def hexdigit_def)
  done

section \<open>Appending\<close>

text \<open>
  Claim C5. For a tree built by appends alone, after one more \<^verbatim>\<open>append\<close> of an
  existing value \<^verbatim>\<open>verify\<close> succeeds, and the tree has exactly one node more. (A tree
  made by \<^verbatim>\<open>from_iter\<close> is built by appends alone: lemma \<open>from_iter_built\<close>.)
\<close>

theorem append_verifies:
  assumes "built h t" and "v < length (vals h)" and "Tree_append v t h = Inr (t', h')"
  shows "Tree_verify t' h' = Inr () \<and> length (Tree_nodes t') = length (Tree_nodes t) + 1"
proof -
  have "built h' t'" using assms by (rule built_append)
  then have "Tree_verify t' h' = Inr ()" by (blast intro: inv_verify built_inv)
  moreover have "length (Tree_nodes t') = length (Tree_nodes t) + 1"
    by (simp add: Tree_nodes_append [OF assms(3)])
  ultimately show ?thesis by simp
qed

theorem append_verifies_witness:
  "built main_heap1 \<lparr>root = Some main_node1\<rparr> \<and>
   1 < length (vals main_heap1) \<and>
   Tree_append 1 \<lparr>root = Some main_node1\<rparr> main_heap1 =
     Inr (\<lparr>root = Some main_node2\<rparr>, main_heap2) \<and>
   Tree_verify \<lparr>root = Some main_node2\<rparr> main_heap2 = Inr () \<and>
   length (Tree_nodes \<lparr>root = Some main_node2\<rparr>) =
     length (Tree_nodes \<lparr>root = Some main_node1\<rparr>) + 1"
proof -
  have v: "1 < length (vals main_heap1)" by (simp add: script_defs)
  from append_verifies [OF main_built v main_second_append]
  show ?thesis using main_built v main_second_append by simp
qed

text \<open>
  Claim C7. \<^verbatim>\<open>append\<close> changes no object that exists: the heap only grows, by the
  hash object of the new node. So for every node whose hash object exists, the hash
  object, the stored hash and the held value are after the append what they were
  before; the new root has the old root as its parent, and the nodes before it are the
  nodes of the tree as it was.
\<close>

theorem append_frame:
  assumes "Tree_append v t h = Inr (t', h')" and "node_hasher n < length (hashers h)"
  shows "hashers h' ! node_hasher n = hashers h ! node_hasher n \<and>
         Node_hash h' n = Node_hash h n \<and> Node_value h' n = Node_value h n \<and>
         grows h h' \<and> vals h' = vals h \<and>
         (\<exists>m. root t' = Some m \<and> node_parent m = root t \<and> Tree_nodes t' = Tree_nodes t @ [m])"
proof -
  from Tree_append_Inr [OF assms(1)] obtain d where
    r: "root t' = Some (Node (length (hashers h)) v (root t))" and
    vs: "vals h' = vals h" and
    hs: "hashers h' = hashers h @
           [Hash ((case root t of None \<Rightarrow> [] | Some p \<Rightarrow> fed (hashers h ! node_hasher p)) @ d)]"
    by blast
  have "hashers h' ! node_hasher n = hashers h ! node_hasher n"
    using assms(2) by (simp add: hs nth_append)
  moreover have "grows h h'" by (simp add: grows_def hs vs)
  ultimately show ?thesis
    using r vs Tree_nodes_append [OF assms(1)] by (simp add: Node_hash_def Node_value_def)
qed

theorem append_frame_witness:
  "Tree_append 1 \<lparr>root = Some main_node1\<rparr> main_heap1 =
     Inr (\<lparr>root = Some main_node2\<rparr>, main_heap2) \<and>
   node_hasher main_node1 < length (hashers main_heap1) \<and>
   hashers main_heap2 ! node_hasher main_node1 = hashers main_heap1 ! node_hasher main_node1 \<and>
   Node_hash main_heap2 main_node1 = Node_hash main_heap1 main_node1 \<and>
   Node_value main_heap2 main_node1 = Node_value main_heap1 main_node1 \<and>
   node_parent main_node2 = Some main_node1"
proof -
  have a: "node_hasher main_node1 < length (hashers main_heap1)" by (simp add: script_defs)
  from append_frame [OF main_second_append a]
  show ?thesis using main_second_append a by (simp add: main_node2_def)
qed

section \<open>The digest of an Array\<close>

text \<open>
  Claim C6. The digest of an \<^verbatim>\<open>Array\<close> with items \<open>item\<^sub>0, ..., item\<^sub>n\<close> is what a hash
  object gives that starts with nothing fed (its digest is then that of zero bytes) and
  is updated with the digest of each item in order: it is SHA-256 of the concatenation
  of the items' digests, one flat fold and no tree. The digest of an item is SHA-256 of
  its UTF-8 bytes; an item that cannot be encoded makes the whole digest raise.
\<close>

theorem Array_digest_flat_fold:
  "fed (Hash_copy INIT_HASHER) = [] \<and>
   Hash_digest (Hash_copy INIT_HASHER) = sha256 [] \<and>
   Array_digest items =
     (if list_ex (list_ex surrogate) items then Inl UnicodeEncodeError
      else Inr (sha256 (concat (map (\<lambda>s. sha256 (concat (map utf8 s))) items))))"
  by (simp add: fed_INIT Hash_digest_def Array_digest_collect collect_String_digest)






section \<open>The digest of a String\<close>

text \<open>
  Claim C9. The digest of a \<^verbatim>\<open>String\<close> raises \<^verbatim>\<open>UnicodeEncodeError\<close> exactly when
  its text has a code point with no UTF-8 encoding (a surrogate); otherwise it raises
  nothing and is SHA-256 of the UTF-8 bytes of every code point of the text, in order:
  nothing is dropped or replaced.
\<close>

theorem String_digest_strict:
  "Value_digest (String s) =
     (if list_ex surrogate s then Inl UnicodeEncodeError
      else Inr (sha256 (concat (map utf8 s))))"
  by (simp add: String_digest_eq)

section \<open>Further properties\<close>

text \<open>
  The invariant of the chain. A tree made by \<^verbatim>\<open>from_iter\<close> from existing values
  verifies, holds the values in the order given, and stores in its root the hash of the
  concatenated digests of the values in that order.
\<close>

theorem from_iter_verifies:
  assumes "\<forall>v \<in> set vs. v < length (vals h)" and "Tree_from_iter vs h = Inr (t, h')"
  shows "Tree_verify t h' = Inr () \<and>
         map node_value (Tree_nodes t) = vs \<and>
         (\<exists>ds. collect (\<lambda>v. Value_digest (vals h ! v)) vs = Inr ds \<and>
            (\<forall>n. root t = Some n \<longrightarrow> Node_hash h' n = hex (sha256 (concat ds))))"
proof -
  have b: "built h' t" using assms by (rule from_iter_built)
  have i: "chain_inv h' t" using b by (rule built_inv)
  have v: "Tree_verify t h' = Inr ()" using i by (rule inv_verify)
  have n: "map node_value (Tree_nodes t) = vs" and vs: "vals h' = vals h"
    using from_iter_loop_nodes [of vs Tree_new h t h'] assms(2)
    by (simp_all add: Tree_from_iter_def Tree_new_def Tree_nodes_def)
  have c: "collect (\<lambda>v. Value_digest (vals h ! v)) vs =
           collect (\<lambda>m. Value_digest (Node_value h' m)) (Tree_nodes t)"
    unfolding n [symmetric] by (simp add: collect_map Node_value_def vs)
  show ?thesis
  proof (cases "root t")
    case None
    then show ?thesis using v n c by (simp add: Tree_nodes_def)
  next
    case (Some m)
    then have "fed_by_values h' m" using i by (simp add: chain_inv_def)
    then show ?thesis using v n c Some
      by (auto simp: fed_by_values_def Tree_nodes_def Node_hash_def Hash_hexdigest_def
            Hash_digest_def split: sum.splits)
  qed
qed

theorem from_iter_verifies_witness:
  "(\<forall>v \<in> set [0, 1]. v < length (vals main_heap)) \<and>
   Tree_from_iter [0, 1] main_heap = Inr (\<lparr>root = Some main_node2\<rparr>, main_heap2) \<and>
   Tree_verify \<lparr>root = Some main_node2\<rparr> main_heap2 = Inr () \<and>
   map node_value (Tree_nodes \<lparr>root = Some main_node2\<rparr>) = [0, 1]"
proof -
  have a: "\<forall>v \<in> set [0, 1]. v < length (vals main_heap)" by (simp add: main_heap_def)
  from from_iter_verifies [OF a main_from_iter] show ?thesis using a main_from_iter by simp
qed

text \<open>Every digest of a value has 32 bytes.\<close>

theorem digest_length:
  assumes "Value_digest x = Inr d"
  shows "length d = 32"
  using assms
  by (cases x)
     (auto simp: String_digest_eq Array_digest_collect length_sha256 split: if_splits sum.splits)

theorem digest_length_witness:
  "Value_digest (vals main_heap ! 1) = Inr digest_bar_baz \<and> length digest_bar_baz = 32"
  using digest_length [OF main_digests(2)] main_digests(2) by simp

text \<open>
  The encoding of a text determines the text: two different texts (of code points up to
  U+10FFFF) that can be encoded have different bytes, so what is hashed for a
  \<^verbatim>\<open>String\<close> stands for its text and for no other.
\<close>

theorem encode_injective:
  assumes "list_all (\<lambda>c. c < 0x110000) s" and "list_all (\<lambda>c. c < 0x110000) t"
    and "encode s = Inr a" and "encode t = Inr b" and "s \<noteq> t"
  shows "a \<noteq> b"
  using assms encode_inj [of s t a] by (auto simp: list_all_iff)

theorem encode_injective_witness:
  "list_all (\<lambda>c. c < 0x110000) (str ''bar'') \<and> list_all (\<lambda>c. c < 0x110000) (str ''baz'') \<and>
   encode (str ''bar'') = Inr (fromhex ''626172'') \<and>
   encode (str ''baz'') = Inr (fromhex ''62617a'') \<and>
   str ''bar'' \<noteq> str ''baz'' \<and> fromhex ''626172'' \<noteq> fromhex ''62617a''"
proof -
  have 1: "list_all (\<lambda>c. c < 0x110000) (str ''bar'')" by (simp add: str_def)
  have 2: "list_all (\<lambda>c. c < 0x110000) (str ''baz'')" by (simp add: str_def)
  have 3: "encode (str ''bar'') = Inr (fromhex ''626172'')"
    by (simp add: str_def surrogate_def utf8_def)
  have 4: "encode (str ''baz'') = Inr (fromhex ''62617a'')"
    by (simp add: str_def surrogate_def utf8_def)
  have 5: "str ''bar'' \<noteq> str ''baz''" by (simp add: str_def)
  from encode_injective [OF 1 2 3 4 5] show ?thesis using 1 2 3 4 5 by simp
qed

end
